theory Spec2Isabelle
  imports
    Main
    "HOL-Library.Word"
    "HOL-Library.Char_ord"
    "HOL-Library.List_Lexorder"
    "HOL-Library.Sublist"
begin

section \<open>The line formatter of pkg/formatter/formatter.go\<close>

text \<open>
  A Go \<open>string\<close> and the contents of a \<open>bytes.Buffer\<close> are byte sequences: both are
  modelled as \<^typ>\<open>string\<close>, a list of 8-bit characters. With \<open>Char_ord\<close> and
  \<open>List_Lexorder\<close> the order on \<^typ>\<open>string\<close> is the byte-wise lexicographic order,
  which is Go's \<open><\<close> on strings and so the order of \<open>sort.Strings\<close>.
\<close>

subsection \<open>Library functions the formatter calls\<close>

text \<open>
  \<open>(*bytes.Buffer).WriteString\<close> and \<open>WriteByte\<close> append to the buffer.
\<close>

definition WriteString :: "string \<Rightarrow> string \<Rightarrow> string" where
  "WriteString b s = b @ s"

definition WriteByte :: "string \<Rightarrow> char \<Rightarrow> string" where
  "WriteByte b c = b @ [c]"

text \<open>
  The verb \<open>%d\<close> of package fmt on an \<open>int\<close>: decimal digits, with a minus sign for a
  negative number.
\<close>

definition digit :: "nat \<Rightarrow> char" where
  "digit n = ''0123456789'' ! (n mod 10)"

function digits :: "nat \<Rightarrow> string" where
  "digits n = (if n < 10 then [digit n] else digits (n div 10) @ [digit n])"
  by pat_completeness auto
termination
  by (relation "measure (\<lambda>n. n)") auto

declare digits.simps [simp del]

definition Itoa :: "int \<Rightarrow> string" where
  "Itoa i = (if i < 0 then CHR ''-'' # digits (nat (- i)) else digits (nat i))"

text \<open>
  \<open>strings.ToUpper\<close> on a string of ASCII bytes maps the letters a to z to A to Z and
  leaves every other byte as it is. The formatter applies it to level names only, which
  are ASCII.
\<close>

definition upperByte :: "char \<Rightarrow> char" where
  "upperByte c =
     (if CHR ''a'' \<le> c \<and> c \<le> CHR ''z''
      then char_of (of_char c - (32 :: nat)) else c)"

definition ToUpper :: "string \<Rightarrow> string" where
  "ToUpper s = map upperByte s"

text \<open>
  \<open>strings.TrimSpace\<close> removes the leading and the trailing white space of a string,
  white space being the runes of \<open>unicode.IsSpace\<close>: the six ASCII bytes tab, line
  feed, vertical tab, form feed, carriage return and space, and the runes U+0085,
  U+00A0, U+1680, U+2000 to U+200A, U+2028, U+2029, U+202F, U+205F and U+3000. A rune
  is read from the bytes of the string in UTF-8, so a white-space rune at the start
  (the end) of a string is a prefix (a suffix) that is one of the encodings below;
  a byte sequence that is not valid UTF-8 decodes to the replacement rune, which is not
  white space.
\<close>

definition spaceRunes :: "string list" where
  "spaceRunes =
     [[CHR 0x09], [CHR 0x0A], [CHR 0x0B], [CHR 0x0C], [CHR 0x0D], [CHR 0x20],
      [CHR 0xC2, CHR 0x85], [CHR 0xC2, CHR 0xA0],
      [CHR 0xE1, CHR 0x9A, CHR 0x80],
      [CHR 0xE2, CHR 0x80, CHR 0x80], [CHR 0xE2, CHR 0x80, CHR 0x81],
      [CHR 0xE2, CHR 0x80, CHR 0x82], [CHR 0xE2, CHR 0x80, CHR 0x83],
      [CHR 0xE2, CHR 0x80, CHR 0x84], [CHR 0xE2, CHR 0x80, CHR 0x85],
      [CHR 0xE2, CHR 0x80, CHR 0x86], [CHR 0xE2, CHR 0x80, CHR 0x87],
      [CHR 0xE2, CHR 0x80, CHR 0x88], [CHR 0xE2, CHR 0x80, CHR 0x89],
      [CHR 0xE2, CHR 0x80, CHR 0x8A],
      [CHR 0xE2, CHR 0x80, CHR 0xA8], [CHR 0xE2, CHR 0x80, CHR 0xA9],
      [CHR 0xE2, CHR 0x80, CHR 0xAF],
      [CHR 0xE2, CHR 0x81, CHR 0x9F],
      [CHR 0xE3, CHR 0x80, CHR 0x80]]"

text \<open>
  The width in bytes of the white-space rune a string starts with (ends with), 0 when it
  starts (ends) with none.
\<close>

definition leadingSpace :: "string \<Rightarrow> nat" where
  "leadingSpace s =
     (case find (\<lambda>r. prefix r s) spaceRunes of None \<Rightarrow> 0 | Some r \<Rightarrow> length r)"

definition trailingSpace :: "string \<Rightarrow> nat" where
  "trailingSpace s =
     (case find (\<lambda>r. suffix r s) spaceRunes of None \<Rightarrow> 0 | Some r \<Rightarrow> length r)"

lemma leadingSpace_le: "leadingSpace s \<le> length s"
  by (auto simp: leadingSpace_def prefix_length_le split: option.splits
      dest!: find_Some_iff [THEN iffD1])

lemma trailingSpace_le: "trailingSpace s \<le> length s"
  by (auto simp: trailingSpace_def suffix_length_le split: option.splits
      dest!: find_Some_iff [THEN iffD1])

function TrimLeftSpace :: "string \<Rightarrow> string" where
  "TrimLeftSpace s =
     (if leadingSpace s = 0 then s else TrimLeftSpace (drop (leadingSpace s) s))"
  by pat_completeness auto
termination
proof (relation "measure length")
  fix s :: string
  assume "leadingSpace s \<noteq> 0"
  moreover have "leadingSpace s \<le> length s" by (rule leadingSpace_le)
  ultimately show "(drop (leadingSpace s) s, s) \<in> measure length" by simp
qed simp

function TrimRightSpace :: "string \<Rightarrow> string" where
  "TrimRightSpace s =
     (if trailingSpace s = 0 then s
      else TrimRightSpace (take (length s - trailingSpace s) s))"
  by pat_completeness auto
termination
proof (relation "measure length")
  fix s :: string
  assume "trailingSpace s \<noteq> 0"
  moreover have "trailingSpace s \<le> length s" by (rule trailingSpace_le)
  ultimately show "(take (length s - trailingSpace s) s, s) \<in> measure length" by simp
qed simp

declare TrimLeftSpace.simps [simp del] TrimRightSpace.simps [simp del]

definition TrimSpace :: "string \<Rightarrow> string" where
  "TrimSpace s = TrimRightSpace (TrimLeftSpace s)"

text \<open>
  The slice expression \<open>s[:n]\<close> of Go panics when \<open>n\<close> exceeds the length of \<open>s\<close>.
\<close>

datatype runtime_panic = SliceBoundsOutOfRange nat nat

definition sliceTo :: "string \<Rightarrow> nat \<Rightarrow> runtime_panic + string" where
  "sliceTo s n = (if n \<le> length s then Inr (take n s) else Inl (SliceBoundsOutOfRange n (length s)))"

subsection \<open>The parts of logrus the formatter uses\<close>

text \<open>
  \<open>logrus.Level\<close> is a \<open>uint32\<close>; the seven levels are the constants 0 to 6, and
  \<open>Level.String\<close> names them, with \<open>unknown\<close> for every other number.
\<close>

type_synonym Level = "32 word"

definition PanicLevel :: Level where "PanicLevel = 0"
definition FatalLevel :: Level where "FatalLevel = 1"
definition ErrorLevel :: Level where "ErrorLevel = 2"
definition WarnLevel :: Level where "WarnLevel = 3"
definition InfoLevel :: Level where "InfoLevel = 4"
definition DebugLevel :: Level where "DebugLevel = 5"
definition TraceLevel :: Level where "TraceLevel = 6"

definition Level_String :: "Level \<Rightarrow> string" where
  "Level_String level =
     (if level = TraceLevel then ''trace''
      else if level = DebugLevel then ''debug''
      else if level = InfoLevel then ''info''
      else if level = WarnLevel then ''warning''
      else if level = ErrorLevel then ''error''
      else if level = FatalLevel then ''fatal''
      else if level = PanicLevel then ''panic''
      else ''unknown'')"

text \<open>
  A \<open>runtime.Frame\<close>, a \<open>logrus.Logger\<close> (of which only \<open>ReportCaller\<close> is read) and a
  \<open>logrus.Entry\<close>. The pointers \<open>Logger\<close> and \<open>Caller\<close> may be nil. \<open>Data\<close> is a Go map
  from field names to values of any type: it is an association list whose order is the
  order in which \<open>range\<close> visits the map, which Go leaves unspecified; the keys of a map
  are distinct. The type \<open>'t\<close> is \<open>time.Time\<close> and \<open>'v\<close> the type of the field values.
\<close>

record Frame =
  Function :: string
  File :: string
  Line :: int

record Logger =
  ReportCaller :: bool

record ('t, 'v) Entry =
  Logger :: "Logger option"
  Data :: "(string \<times> 'v) list"
  Time :: 't
  Level :: Level
  Caller :: "Frame option"
  Message :: string

definition HasCaller :: "('t, 'v) Entry \<Rightarrow> bool" where
  "HasCaller entry \<longleftrightarrow>
     Logger entry \<noteq> None \<and> ReportCaller (the (Logger entry)) \<and> Caller entry \<noteq> None"

text \<open>
  The verb \<open>%v\<close> on the value \<open>entry.Data[field]\<close>: the default format \<open>vf\<close> of the
  value, and \<open><nil>\<close> when the map has no such key (the lookup gives a nil interface).
\<close>

definition Sprint_v :: "('v \<Rightarrow> string) \<Rightarrow> 'v option \<Rightarrow> string" where
  "Sprint_v vf x = (case x of None \<Rightarrow> ''<nil>'' | Some v \<Rightarrow> vf v)"

subsection \<open>The formatter\<close>

record Formatter =
  FieldsOrder :: "string list option"
  TimestampFormat :: string
  HideKeys :: bool
  NoColors :: bool
  DisableTrimMessages :: bool

definition TimeOnly :: string where
  "TimeOnly = ''15:04:05''"

definition colorNone :: int where "colorNone = 0"
definition colorBlack :: int where "colorBlack = 30"
definition colorRed :: int where "colorRed = 31"
definition colorGreen :: int where "colorGreen = 32"
definition colorYellow :: int where "colorYellow = 33"
definition colorBlue :: int where "colorBlue = 34"
definition colorMagenta :: int where "colorMagenta = 35"
definition colorCyan :: int where "colorCyan = 36"
definition colorGray :: int where "colorGray = 37"

definition getColorByLevel :: "Level \<Rightarrow> int" where
  "getColorByLevel level =
     (if level = DebugLevel \<or> level = TraceLevel then colorGray
      else if level = WarnLevel then colorYellow
      else if level = ErrorLevel \<or> level = FatalLevel \<or> level = PanicLevel then colorRed
      else colorCyan)"

text \<open>\<open>fmt.Fprintf(b, "\x1b[%dm", c)\<close>\<close>

definition ESC :: char where
  "ESC = CHR 0x1B"

definition LF :: char where
  "LF = CHR 0x0A"

definition writeColor :: "string \<Rightarrow> int \<Rightarrow> string" where
  "writeColor b c = b @ [ESC] @ ''['' @ Itoa c @ ''m''"

definition writeField ::
  "('v \<Rightarrow> string) \<Rightarrow> Formatter \<Rightarrow> string \<Rightarrow> ('t, 'v) Entry \<Rightarrow> string \<Rightarrow> string" where
  "writeField vf f b entry field =
     (let b = (if HideKeys f
               then b @ ''['' @ Sprint_v vf (map_of (Data entry) field) @ '']''
               else b @ ''['' @ field @ '':'' @ Sprint_v vf (map_of (Data entry) field) @ '']'')
      in WriteString b '' '')"

text \<open>
  The loop \<open>for _, field := range fields { f.writeField(b, entry, field) }\<close>; the
  slice \<open>fields\<close> (and \<open>notFoundFields\<close>) of the source is \<open>fieldList\<close> here.
\<close>

fun writeEach ::
  "('v \<Rightarrow> string) \<Rightarrow> Formatter \<Rightarrow> string \<Rightarrow> ('t, 'v) Entry \<Rightarrow> string list \<Rightarrow> string" where
  "writeEach vf f b entry [] = b"
| "writeEach vf f b entry (field # fieldList) =
     writeEach vf f (writeField vf f b entry field) entry fieldList"

text \<open>The loop \<open>for field := range entry.Data { fields = append(fields, field) }\<close>.\<close>

fun appendKeys :: "string list \<Rightarrow> (string \<times> 'v) list \<Rightarrow> string list" where
  "appendKeys fieldList [] = fieldList"
| "appendKeys fieldList ((field, v) # rest) = appendKeys (fieldList @ [field]) rest"

definition writeFields ::
  "('v \<Rightarrow> string) \<Rightarrow> Formatter \<Rightarrow> string \<Rightarrow> ('t, 'v) Entry \<Rightarrow> string" where
  "writeFields vf f b entry =
     (if length (Data entry) \<noteq> 0
      then let fieldList = appendKeys [] (Data entry);
               fieldList = sort fieldList
           in writeEach vf f b entry fieldList
      else b)"

text \<open>
  The first loop of \<open>writeOrderedFields\<close>, over \<open>f.FieldsOrder\<close>; its state is
  \<open>foundFieldsMap\<close>, \<open>length\<close> and the buffer. A \<open>map[string]bool\<close> reads as false at a
  key it does not hold.
\<close>

definition lookupBool :: "(string \<rightharpoonup> bool) \<Rightarrow> string \<Rightarrow> bool" where
  "lookupBool m k = (case m k of None \<Rightarrow> False | Some v \<Rightarrow> v)"

fun orderedLoop ::
  "('v \<Rightarrow> string) \<Rightarrow> Formatter \<Rightarrow> ('t, 'v) Entry \<Rightarrow> string list \<Rightarrow>
   (string \<rightharpoonup> bool) \<times> int \<times> string \<Rightarrow> (string \<rightharpoonup> bool) \<times> int \<times> string" where
  "orderedLoop vf f entry [] st = st"
| "orderedLoop vf f entry (field # rest) (foundFieldsMap, len, b) =
     (if map_of (Data entry) field \<noteq> None
      then orderedLoop vf f entry rest
             (foundFieldsMap(field \<mapsto> True), len - 1, writeField vf f b entry field)
      else orderedLoop vf f entry rest (foundFieldsMap, len, b))"

text \<open>
  The loop \<open>for field := range entry.Data\<close> that collects the fields not found.
\<close>

fun appendNotFound ::
  "(string \<rightharpoonup> bool) \<Rightarrow> string list \<Rightarrow> (string \<times> 'v) list \<Rightarrow> string list" where
  "appendNotFound foundFieldsMap fieldList [] = fieldList"
| "appendNotFound foundFieldsMap fieldList ((field, v) # rest) =
     (if lookupBool foundFieldsMap field = False
      then appendNotFound foundFieldsMap (fieldList @ [field]) rest
      else appendNotFound foundFieldsMap fieldList rest)"

definition rangeOrder :: "Formatter \<Rightarrow> string list" where
  "rangeOrder f = (case FieldsOrder f of None \<Rightarrow> [] | Some order \<Rightarrow> order)"

definition writeOrderedFields ::
  "('v \<Rightarrow> string) \<Rightarrow> Formatter \<Rightarrow> string \<Rightarrow> ('t, 'v) Entry \<Rightarrow> string" where
  "writeOrderedFields vf f b entry =
     (case orderedLoop vf f entry (rangeOrder f) (Map.empty, int (length (Data entry)), b) of
        (foundFieldsMap, len, b) \<Rightarrow>
          if len > 0
          then let notFoundFields = appendNotFound foundFieldsMap [] (Data entry);
                   notFoundFields = sort notFoundFields
               in writeEach vf f b entry notFoundFields
          else b)"

definition writeCaller :: "Formatter \<Rightarrow> string \<Rightarrow> ('t, 'v) Entry \<Rightarrow> string" where
  "writeCaller f b entry =
     (if HasCaller entry
      then let c = the (Caller entry)
           in b @ '' ('' @ File c @ '':'' @ Itoa (Line c) @ '' '' @ Function c @ '')''
      else b)"

text \<open>
  \<open>Format\<close> returns the bytes of the buffer and a nil error, or panics at the slice
  \<open>level[:4]\<close>. \<open>tf\<close> is \<open>Time.Format\<close>.
\<close>

type_synonym error = string

definition Format ::
  "('t \<Rightarrow> string \<Rightarrow> string) \<Rightarrow> ('v \<Rightarrow> string) \<Rightarrow> Formatter \<Rightarrow> ('t, 'v) Entry \<Rightarrow>
   runtime_panic + (string \<times> error option)" where
  "Format tf vf f entry =
     (let levelColor = getColorByLevel (Level entry);
          timestampFormat = TimestampFormat f;
          timestampFormat = (if timestampFormat = [] then TimeOnly else timestampFormat);
          b = [];
          b = WriteString b ''['';
          b = WriteString b (tf (Time entry) timestampFormat);
          b = WriteString b '']'';
          level = ToUpper (Level_String (Level entry));
          b = (if \<not> NoColors f then writeColor b levelColor else b);
          b = WriteString b '' [''
      in case sliceTo level 4 of
           Inl p \<Rightarrow> Inl p
         | Inr level4 \<Rightarrow>
             let b = WriteString b level4;
                 b = WriteString b '']'';
                 b = WriteString b '' '';
                 b = (if FieldsOrder f = None
                      then writeFields vf f b entry
                      else writeOrderedFields vf f b entry);
                 b = (if \<not> NoColors f then writeColor b colorNone else b);
                 b = (if DisableTrimMessages f
                      then WriteString b (Message entry)
                      else WriteString b (TrimSpace (Message entry)));
                 b = writeCaller f b entry;
                 b = WriteByte b LF
             in Inr (b, None))"

subsection \<open>Notions used to state the properties\<close>

text \<open>
  The names of an order list that are fields of the record, in the sequence of the list.
\<close>

definition present :: "('t, 'v) Entry \<Rightarrow> string list \<Rightarrow> string list" where
  "present entry order = filter (\<lambda>k. k \<in> fst ` set (Data entry)) order"

text \<open>
  The number of positions of \<open>s\<close> at which the text \<open>p\<close> occurs, and the number of
  bytes \<open>c\<close> at the end of \<open>s\<close>.
\<close>

definition occurrences :: "string \<Rightarrow> string \<Rightarrow> nat" where
  "occurrences p s =
     length (filter (\<lambda>i. take (length p) (drop i s) = p) [0..<Suc (length s)])"

definition trailingCount :: "char \<Rightarrow> string \<Rightarrow> nat" where
  "trailingCount c s = length (takeWhile (\<lambda>x. x = c) (rev s))"

subsection \<open>Example data\<close>

text \<open>
  Two of the types a field value can have, with their default formats: a string is
  printed as it is, an integer in decimal. In the examples a time is given by the text
  that its \<open>Format\<close> method returns.
\<close>

datatype GoValue = GoString string | GoInt int

fun format_v :: "GoValue \<Rightarrow> string" where
  "format_v (GoString s) = s"
| "format_v (GoInt i) = Itoa i"

definition format_t :: "string \<Rightarrow> string \<Rightarrow> string" where
  "format_t t layout = t"

definition exampleEntry :: "(string, GoValue) Entry" where
  "exampleEntry =
     \<lparr>Logger = None,
      Data = [(''user'', GoString ''alice''), (''id'', GoInt 42)],
      Time = ''10:30:00'',
      Level = InfoLevel,
      Caller = None,
      Message = '' hello ''\<rparr>"

definition exampleFormatter :: Formatter where
  "exampleFormatter =
     \<lparr>FieldsOrder = Some [''id''],
      TimestampFormat = [],
      HideKeys = False,
      NoColors = False,
      DisableTrimMessages = False\<rparr>"

section \<open>Properties\<close>

subsection \<open>Rendering the fields\<close>

lemma writeField_append: "writeField vf f b entry field = b @ writeField vf f [] entry field"
  by (simp add: writeField_def WriteString_def)

lemma writeEach_concat:
  "writeEach vf f b entry ks = b @ concat (map (writeField vf f [] entry) ks)"
proof (induction ks arbitrary: b)
  case Nil
  show ?case by simp
next
  case (Cons k ks)
  have "writeEach vf f b entry (k # ks) = writeEach vf f (writeField vf f b entry k) entry ks"
    by simp
  also have "\<dots> = writeField vf f b entry k @ concat (map (writeField vf f [] entry) ks)"
    by (rule Cons.IH)
  also have "\<dots> = b @ writeField vf f [] entry k @ concat (map (writeField vf f [] entry) ks)"
    by (subst writeField_append) simp
  finally show ?case by simp
qed

lemma appendKeys_eq: "appendKeys acc d = acc @ map fst d"
  by (induction acc d rule: appendKeys.induct) simp_all

lemma writeFields_eq:
  "writeFields vf f b entry =
     b @ concat (map (writeField vf f [] entry) (sort (map fst (Data entry))))"
  by (cases "Data entry") (simp_all add: writeFields_def appendKeys_eq writeEach_concat Let_def)

lemma orderedLoop_eq:
  "orderedLoop vf f entry order (m, len, b) =
     ((\<lambda>k. if k \<in> set (present entry order) then Some True else m k),
      len - int (length (present entry order)),
      b @ concat (map (writeField vf f [] entry) (present entry order)))"
proof (induction order arbitrary: m len b)
  case Nil
  show ?case by (simp add: present_def)
next
  case (Cons k order)
  show ?case
  proof (cases "k \<in> fst ` set (Data entry)")
    case True
    then have "orderedLoop vf f entry (k # order) (m, len, b) =
        orderedLoop vf f entry order (m(k \<mapsto> True), len - 1, writeField vf f b entry k)"
      by (simp add: map_of_eq_None_iff)
    also have "\<dots> = ((\<lambda>x. if x \<in> set (present entry order) then Some True else (m(k \<mapsto> True)) x),
        len - 1 - int (length (present entry order)),
        writeField vf f b entry k @ concat (map (writeField vf f [] entry) (present entry order)))"
      by (rule Cons.IH)
    also have "\<dots> = ((\<lambda>x. if x \<in> set (present entry (k # order)) then Some True else m x),
        len - int (length (present entry (k # order))),
        b @ concat (map (writeField vf f [] entry) (present entry (k # order))))"
      using True by (subst writeField_append) (auto simp: present_def fun_eq_iff)
    finally show ?thesis .
  next
    case False
    then have "orderedLoop vf f entry (k # order) (m, len, b) =
        orderedLoop vf f entry order (m, len, b)"
      by (simp add: map_of_eq_None_iff)
    also have "\<dots> = ((\<lambda>x. if x \<in> set (present entry order) then Some True else m x),
        len - int (length (present entry order)),
        b @ concat (map (writeField vf f [] entry) (present entry order)))"
      by (rule Cons.IH)
    finally show ?thesis using False by (simp add: present_def)
  qed
qed

lemma appendNotFound_eq:
  "appendNotFound m acc d = acc @ filter (\<lambda>k. \<not> lookupBool m k) (map fst d)"
  by (induction m acc d rule: appendNotFound.induct) simp_all

lemma writeOrderedFields_eq:
  "writeOrderedFields vf f b entry =
     b @ concat (map (writeField vf f [] entry) (present entry (rangeOrder f))) @
     (if int (length (Data entry)) - int (length (present entry (rangeOrder f))) > 0
      then concat (map (writeField vf f [] entry)
             (sort (filter (\<lambda>k. k \<notin> set (present entry (rangeOrder f))) (map fst (Data entry)))))
      else [])"
  by (simp add: writeOrderedFields_def orderedLoop_eq appendNotFound_eq writeEach_concat
      lookupBool_def Let_def)

subsection \<open>White space\<close>

lemma spaceRunes_nonempty: "r \<in> set spaceRunes \<Longrightarrow> r \<noteq> []"
  by (auto simp: spaceRunes_def)

lemma leadingSpace_0_iff: "leadingSpace s = 0 \<longleftrightarrow> (\<forall>r\<in>set spaceRunes. \<not> prefix r s)"
proof (cases "find (\<lambda>r. prefix r s) spaceRunes")
  case None
  moreover from None have "\<forall>r\<in>set spaceRunes. \<not> prefix r s"
    by (simp add: find_None_iff)
  ultimately show ?thesis by (simp add: leadingSpace_def)
next
  case (Some r)
  then have "r \<in> set spaceRunes" "prefix r s"
    by (auto simp: find_Some_iff)
  with Some show ?thesis
    using spaceRunes_nonempty [of r] by (auto simp: leadingSpace_def)
qed

lemma leadingSpace_take:
  assumes "leadingSpace s \<noteq> 0"
  shows "take (leadingSpace s) s \<in> set spaceRunes"
proof (cases "find (\<lambda>r. prefix r s) spaceRunes")
  case None
  with assms show ?thesis by (simp add: leadingSpace_def)
next
  case (Some r)
  then have r: "r \<in> set spaceRunes" "prefix r s"
    by (auto simp: find_Some_iff)
  then obtain t where "s = r @ t" by (auto simp: prefix_def)
  with Some r show ?thesis by (simp add: leadingSpace_def)
qed

lemma trailingSpace_0_iff: "trailingSpace s = 0 \<longleftrightarrow> (\<forall>r\<in>set spaceRunes. \<not> suffix r s)"
proof (cases "find (\<lambda>r. suffix r s) spaceRunes")
  case None
  moreover from None have "\<forall>r\<in>set spaceRunes. \<not> suffix r s"
    by (simp add: find_None_iff)
  ultimately show ?thesis by (simp add: trailingSpace_def)
next
  case (Some r)
  then have "r \<in> set spaceRunes" "suffix r s"
    by (auto simp: find_Some_iff)
  with Some show ?thesis
    using spaceRunes_nonempty [of r] by (auto simp: trailingSpace_def)
qed

lemma trailingSpace_drop:
  assumes "trailingSpace s \<noteq> 0"
  shows "drop (length s - trailingSpace s) s \<in> set spaceRunes"
proof (cases "find (\<lambda>r. suffix r s) spaceRunes")
  case None
  with assms show ?thesis by (simp add: trailingSpace_def)
next
  case (Some r)
  then have r: "r \<in> set spaceRunes" "suffix r s"
    by (auto simp: find_Some_iff)
  then obtain t where "s = t @ r" by (auto simp: suffix_def)
  with Some r show ?thesis by (simp add: trailingSpace_def)
qed

lemma TrimLeftSpace_spec:
  "\<exists>ls. set ls \<subseteq> set spaceRunes \<and> s = concat ls @ TrimLeftSpace s \<and>
        leadingSpace (TrimLeftSpace s) = 0"
proof (induction s rule: TrimLeftSpace.induct)
  case (1 s)
  show ?case
  proof (cases "leadingSpace s = 0")
    case True
    then have "TrimLeftSpace s = s" by (subst TrimLeftSpace.simps) simp
    with True have "set [] \<subseteq> set spaceRunes \<and> s = concat [] @ TrimLeftSpace s \<and>
        leadingSpace (TrimLeftSpace s) = 0" by simp
    then show ?thesis by blast
  next
    case False
    let ?t = "drop (leadingSpace s) s"
    from False have eq: "TrimLeftSpace s = TrimLeftSpace ?t"
      by (subst TrimLeftSpace.simps) simp
    from "1.IH" [OF False] obtain ls where ls: "set ls \<subseteq> set spaceRunes"
      "?t = concat ls @ TrimLeftSpace ?t" "leadingSpace (TrimLeftSpace ?t) = 0"
      by blast
    have "s = take (leadingSpace s) s @ ?t" by simp
    also have "\<dots> = concat (take (leadingSpace s) s # ls) @ TrimLeftSpace ?t"
      using ls(2) by simp
    finally have "s = concat (take (leadingSpace s) s # ls) @ TrimLeftSpace s"
      by (simp only: eq)
    moreover have "set (take (leadingSpace s) s # ls) \<subseteq> set spaceRunes"
      using ls(1) leadingSpace_take [OF False] by simp
    ultimately show ?thesis using ls(3) eq by metis
  qed
qed

lemma TrimRightSpace_spec:
  "\<exists>rs. set rs \<subseteq> set spaceRunes \<and> s = TrimRightSpace s @ concat rs \<and>
        trailingSpace (TrimRightSpace s) = 0"
proof (induction s rule: TrimRightSpace.induct)
  case (1 s)
  show ?case
  proof (cases "trailingSpace s = 0")
    case True
    then have "TrimRightSpace s = s" by (subst TrimRightSpace.simps) simp
    with True have "set [] \<subseteq> set spaceRunes \<and> s = TrimRightSpace s @ concat [] \<and>
        trailingSpace (TrimRightSpace s) = 0" by simp
    then show ?thesis by blast
  next
    case False
    let ?t = "take (length s - trailingSpace s) s"
    let ?r = "drop (length s - trailingSpace s) s"
    from False have eq: "TrimRightSpace s = TrimRightSpace ?t"
      by (subst TrimRightSpace.simps) simp
    from "1.IH" [OF False] obtain rs where rs: "set rs \<subseteq> set spaceRunes"
      "?t = TrimRightSpace ?t @ concat rs" "trailingSpace (TrimRightSpace ?t) = 0"
      by blast
    have "s = ?t @ ?r" by simp
    also have "\<dots> = (TrimRightSpace ?t @ concat rs) @ ?r"
      using rs(2) by (rule arg_cong)
    also have "\<dots> = TrimRightSpace ?t @ concat (rs @ [?r])"
      by simp
    finally have "s = TrimRightSpace s @ concat (rs @ [?r])"
      by (simp only: eq)
    moreover have "set (rs @ [?r]) \<subseteq> set spaceRunes"
      using rs(1) trailingSpace_drop [OF False] by simp
    ultimately show ?thesis using rs(3) eq by metis
  qed
qed

lemma TrimSpace_spec:
  "\<exists>ls rs. set ls \<subseteq> set spaceRunes \<and> set rs \<subseteq> set spaceRunes \<and>
     s = concat ls @ TrimSpace s @ concat rs \<and>
     (\<forall>r\<in>set spaceRunes. \<not> prefix r (TrimSpace s) \<and> \<not> suffix r (TrimSpace s))"
proof -
  obtain ls where ls: "set ls \<subseteq> set spaceRunes" "s = concat ls @ TrimLeftSpace s"
    "leadingSpace (TrimLeftSpace s) = 0"
    using TrimLeftSpace_spec [of s] by blast
  obtain rs where rs: "set rs \<subseteq> set spaceRunes"
    "TrimLeftSpace s = TrimSpace s @ concat rs" "trailingSpace (TrimSpace s) = 0"
    using TrimRightSpace_spec [of "TrimLeftSpace s"] unfolding TrimSpace_def by blast
  have "\<not> prefix r (TrimSpace s)" if "r \<in> set spaceRunes" for r
  proof
    assume "prefix r (TrimSpace s)"
    then have "prefix r (TrimLeftSpace s)"
      by (subst rs(2)) (rule prefix_prefix)
    with ls(3) that show False by (simp add: leadingSpace_0_iff)
  qed
  moreover have "\<not> suffix r (TrimSpace s)" if "r \<in> set spaceRunes" for r
    using rs(3) that by (simp add: trailingSpace_0_iff)
  moreover have "s = concat ls @ TrimSpace s @ concat rs"
    using ls(2) rs(2) by simp
  ultimately show ?thesis using ls(1) rs(1) by blast
qed

lemma set_TrimSpace: "set (TrimSpace s) \<subseteq> set s"
proof -
  obtain ls rs where "s = concat ls @ TrimSpace s @ concat rs"
    using TrimSpace_spec [of s] by blast
  then have "set s = set (concat ls) \<union> set (TrimSpace s) \<union> set (concat rs)"
    by (metis set_append sup_assoc)
  then show ?thesis by blast
qed

subsection \<open>Levels, colours and numbers\<close>

lemma Level_String_cases:
  "Level_String l \<in> {''trace'', ''debug'', ''info'', ''warning'', ''error'', ''fatal'', ''panic'', ''unknown''}"
  by (simp add: Level_String_def)

lemma length_ToUpper: "length (ToUpper s) = length s"
  by (simp add: ToUpper_def)

lemma level_name_length: "4 \<le> length (ToUpper (Level_String l))"
  using Level_String_cases [of l] by (auto simp: length_ToUpper)

lemma level_tags:
  "take 4 (ToUpper (Level_String InfoLevel)) = ''INFO''"
  "take 4 (ToUpper (Level_String WarnLevel)) = ''WARN''"
  "take 4 (ToUpper (Level_String ErrorLevel)) = ''ERRO''"
  "take 4 (ToUpper (Level_String FatalLevel)) = ''FATA''"
  "take 4 (ToUpper (Level_String PanicLevel)) = ''PANI''"
  "take 4 (ToUpper (Level_String DebugLevel)) = ''DEBU''"
  "take 4 (ToUpper (Level_String TraceLevel)) = ''TRAC''"
  by code_simp+

lemma ESC_notin_level: "ESC \<notin> set (ToUpper (Level_String l))"
proof -
  have "\<forall>s \<in> {''trace'', ''debug'', ''info'', ''warning'', ''error'', ''fatal'', ''panic'', ''unknown''}. ESC \<notin> set (ToUpper s)"
    by code_simp
  then show ?thesis using Level_String_cases [of l] by blast
qed

lemma digit_range: "digit n \<in> set ''0123456789''"
proof -
  have "n mod 10 < length ''0123456789''" by simp
  then show ?thesis unfolding digit_def by (rule nth_mem)
qed

lemma digits_range: "set (digits n) \<subseteq> set ''0123456789''"
proof (induction n rule: digits.induct)
  case (1 n)
  show ?case
  proof (cases "n < 10")
    case True
    then have "digits n = [digit n]" by (subst digits.simps) simp
    then show ?thesis using digit_range [of n] by simp
  next
    case False
    then have "digits n = digits (n div 10) @ [digit n]" by (subst digits.simps) simp
    then show ?thesis using "1.IH" [OF False] digit_range [of n] by simp
  qed
qed

lemma ESC_notin_Itoa: "ESC \<notin> set (Itoa i)"
  using digits_range [of "nat i"] digits_range [of "nat (- i)"]
  by (auto simp: Itoa_def ESC_def)

lemma getColorByLevel_values:
  "getColorByLevel TraceLevel = 37" "getColorByLevel DebugLevel = 37"
  "getColorByLevel WarnLevel = 33" "getColorByLevel ErrorLevel = 31"
  "getColorByLevel FatalLevel = 31" "getColorByLevel PanicLevel = 31"
  "getColorByLevel InfoLevel = 36"
  "l \<notin> {TraceLevel, DebugLevel, WarnLevel, ErrorLevel, FatalLevel, PanicLevel} \<Longrightarrow> getColorByLevel l = 36"
  by (simp_all add: getColorByLevel_def TraceLevel_def DebugLevel_def WarnLevel_def ErrorLevel_def
      FatalLevel_def PanicLevel_def InfoLevel_def colorGray_def colorYellow_def colorRed_def colorCyan_def)

subsection \<open>The layout of the line\<close>

lemma writeFields_append: "writeFields vf f b entry = b @ writeFields vf f [] entry"
  by (simp add: writeFields_eq)

lemma writeOrderedFields_append:
  "writeOrderedFields vf f b entry = b @ writeOrderedFields vf f [] entry"
  by (simp add: writeOrderedFields_eq)

lemma writeCaller_append: "writeCaller f b entry = b @ writeCaller f [] entry"
  by (simp add: writeCaller_def Let_def)

lemma Format_layout:
  assumes "4 \<le> length (ToUpper (Level_String (Level entry)))"
  shows "Format tf vf f entry =
     Inr (''['' @ tf (Time entry) (if TimestampFormat f = [] then TimeOnly else TimestampFormat f) @ '']'' @
          (if NoColors f then [] else [ESC] @ ''['' @ Itoa (getColorByLevel (Level entry)) @ ''m'') @
          '' ['' @ take 4 (ToUpper (Level_String (Level entry))) @ '']'' @ '' '' @
          (if FieldsOrder f = None then writeFields vf f [] entry
           else writeOrderedFields vf f [] entry) @
          (if NoColors f then [] else [ESC] @ ''['' @ Itoa colorNone @ ''m'') @
          (if DisableTrimMessages f then Message entry else TrimSpace (Message entry)) @
          writeCaller f [] entry @ [LF], None)"
proof -
  have slice: "sliceTo (ToUpper (Level_String (Level entry))) 4 =
      Inr (take 4 (ToUpper (Level_String (Level entry))))"
    using assms by (simp add: sliceTo_def)
  show ?thesis
    unfolding Format_def Let_def slice sum.case WriteString_def WriteByte_def writeColor_def
    by (simp add: writeFields_eq writeOrderedFields_eq writeCaller_def Let_def)
qed

subsection \<open>The ordered fields\<close>

lemma set_present: "set (present entry order) = set order \<inter> fst ` set (Data entry)"
  by (auto simp: present_def)

lemma remaining_filter:
  "filter (\<lambda>k. k \<notin> set (present entry order)) (map fst (Data entry)) =
   filter (\<lambda>k. k \<notin> set order) (map fst (Data entry))"
  by (rule filter_cong) (auto simp: set_present)

lemma remaining_length:
  assumes "distinct (map fst (Data entry))" and "distinct (present entry order)"
  shows "int (length (filter (\<lambda>k. k \<notin> set order) (map fst (Data entry)))) =
         int (length (Data entry)) - int (length (present entry order))"
proof -
  let ?K = "map fst (Data entry)"
  let ?R = "filter (\<lambda>k. k \<notin> set order) ?K"
  have "distinct ?R" using assms(1) by simp
  then have "card (set ?R) = length ?R" by (rule distinct_card)
  then have "length ?R = card (set ?R)" by (rule sym)
  also have "set ?R = set ?K - set (present entry order)"
    by (auto simp: set_present)
  also have "card (set ?K - set (present entry order)) = card (set ?K) - card (set (present entry order))"
    by (rule card_Diff_subset) (auto simp: set_present)
  also have "card (set ?K) = length ?K" using assms(1) by (rule distinct_card)
  also have "card (set (present entry order)) = length (present entry order)"
    using assms(2) by (rule distinct_card)
  finally have "length ?R = length ?K - length (present entry order)" .
  moreover have "length (present entry order) \<le> length ?K"
  proof -
    have "card (set (present entry order)) \<le> card (set ?K)"
      by (rule card_mono) (auto simp: set_present)
    moreover have "card (set (present entry order)) = length (present entry order)"
      using assms(2) by (rule distinct_card)
    moreover have "card (set ?K) = length ?K" using assms(1) by (rule distinct_card)
    ultimately show ?thesis by simp
  qed
  ultimately show ?thesis by simp
qed

lemma writeOrderedFields_distinct:
  assumes "distinct (map fst (Data entry))" and "distinct (present entry (rangeOrder f))"
  shows "writeOrderedFields vf f b entry =
     b @ concat (map (writeField vf f [] entry)
           (present entry (rangeOrder f) @
            sort (filter (\<lambda>k. k \<notin> set (rangeOrder f)) (map fst (Data entry)))))"
proof -
  let ?R = "filter (\<lambda>k. k \<notin> set (rangeOrder f)) (map fst (Data entry))"
  have len: "int (length ?R) = int (length (Data entry)) - int (length (present entry (rangeOrder f)))"
    using assms by (rule remaining_length)
  show ?thesis
  proof (cases "int (length (Data entry)) - int (length (present entry (rangeOrder f))) > 0")
    case True
    then show ?thesis by (simp add: writeOrderedFields_eq remaining_filter)
  next
    case False
    with len have "length ?R = 0" by linarith
    then have "?R = []" by (simp only: length_0_conv)
    then have "sort ?R = []" by (simp only: sort_key_simps)
    with False show ?thesis by (simp only: writeOrderedFields_eq) simp
  qed
qed

subsection \<open>Records with the same fields\<close>

lemma sort_keys_eq:
  assumes "distinct (map fst d)" and "distinct (map fst d')" and "set d = set d'"
  shows "sort (map fst d) = sort (map fst d')"
proof (rule sorted_distinct_set_unique)
  show "sorted (sort (map fst d))" "sorted (sort (map fst d'))" by simp_all
  show "distinct (sort (map fst d))" using assms(1) by simp
  show "distinct (sort (map fst d'))" using assms(2) by simp
  show "set (sort (map fst d)) = set (sort (map fst d'))" using assms(3) by simp
qed

lemma writeField_Data_cong:
  assumes "map_of (Data entry) = map_of (Data entry')"
  shows "writeField vf f b entry = writeField vf f b entry'"
  by (rule ext) (simp add: writeField_def assms)

lemma writeCaller_Data: "writeCaller f b (entry\<lparr>Data := d\<rparr>) = writeCaller f b entry"
  by (auto simp: writeCaller_def HasCaller_def)

subsection \<open>The end of the line\<close>

lemma field_segment_names:
  "\<exists>names. set names \<subseteq> fst ` set (Data entry) \<and>
     (if FieldsOrder f = None then writeFields vf f [] entry
      else writeOrderedFields vf f [] entry) =
     concat (map (writeField vf f [] entry) names)"
proof -
  let ?K = "sort (map fst (Data entry))"
  let ?P = "present entry (rangeOrder f)"
  let ?R = "sort (filter (\<lambda>k. k \<notin> set ?P) (map fst (Data entry)))"
  have K: "set ?K \<subseteq> fst ` set (Data entry)" by simp
  have P: "set ?P \<subseteq> fst ` set (Data entry)" by (auto simp: set_present)
  have PR: "set (?P @ ?R) \<subseteq> fst ` set (Data entry)" by (auto simp: set_present)
  consider (none) "FieldsOrder f = None"
    | (more) "FieldsOrder f \<noteq> None" "int (length (Data entry)) - int (length ?P) > 0"
    | (all) "FieldsOrder f \<noteq> None" "\<not> int (length (Data entry)) - int (length ?P) > 0"
    by blast
  then show ?thesis
  proof cases
    case none
    then have "(if FieldsOrder f = None then writeFields vf f [] entry
        else writeOrderedFields vf f [] entry) = concat (map (writeField vf f [] entry) ?K)"
      by (simp add: writeFields_eq)
    with K show ?thesis by blast
  next
    case more
    from more(2) have "writeOrderedFields vf f [] entry =
        concat (map (writeField vf f [] entry) (?P @ ?R))"
      by (simp add: writeOrderedFields_eq)
    with more(1) have "(if FieldsOrder f = None then writeFields vf f [] entry
        else writeOrderedFields vf f [] entry) = concat (map (writeField vf f [] entry) (?P @ ?R))"
      by auto
    with PR show ?thesis by blast
  next
    case all
    from all(2) have "writeOrderedFields vf f [] entry =
        concat (map (writeField vf f [] entry) ?P)"
      by (simp add: writeOrderedFields_eq)
    with all(1) have "(if FieldsOrder f = None then writeFields vf f [] entry
        else writeOrderedFields vf f [] entry) = concat (map (writeField vf f [] entry) ?P)"
      by auto
    with P show ?thesis by blast
  qed
qed

lemma last_concat_map:
  assumes "\<And>x. x \<in> set xs \<Longrightarrow> g x \<noteq> [] \<and> last (g x) = c"
  shows "concat (map g xs) = [] \<or> last (concat (map g xs)) = c"
  using assms
proof (induction xs rule: rev_induct)
  case Nil
  show ?case by simp
next
  case (snoc x xs)
  have "g x \<noteq> []" "last (g x) = c" using snoc.prems [of x] by simp_all
  then show ?case by simp
qed

lemma last_field_segment:
  "(if FieldsOrder f = None then writeFields vf f [] entry
    else writeOrderedFields vf f [] entry) = [] \<or>
   last (if FieldsOrder f = None then writeFields vf f [] entry
         else writeOrderedFields vf f [] entry) = CHR '' ''"
proof -
  obtain names where n: "(if FieldsOrder f = None then writeFields vf f [] entry
      else writeOrderedFields vf f [] entry) = concat (map (writeField vf f [] entry) names)"
    using field_segment_names [of entry f vf] by blast
  have "writeField vf f [] entry k \<noteq> [] \<and> last (writeField vf f [] entry k) = CHR '' ''" for k
    by (simp add: writeField_def WriteString_def)
  then have "concat (map (writeField vf f [] entry) names) = [] \<or>
      last (concat (map (writeField vf f [] entry) names)) = CHR '' ''"
    by (intro last_concat_map) simp
  then show ?thesis by (simp only: n)
qed

lemma trailingCount_snoc: "trailingCount c (s @ [c]) = Suc (trailingCount c s)"
  by (simp add: trailingCount_def)

lemma trailingCount_0_iff: "trailingCount c s = 0 \<longleftrightarrow> s = [] \<or> last s \<noteq> c"
proof (cases s rule: rev_cases)
  case Nil
  then show ?thesis by (simp add: trailingCount_def)
next
  case (snoc xs x)
  then show ?thesis by (simp add: trailingCount_def)
qed

lemma occurrences_infix: "1 \<le> occurrences p (pre @ p @ post)"
proof -
  let ?s = "pre @ p @ post"
  let ?P = "\<lambda>i. take (length p) (drop i ?s) = p"
  have "length pre \<in> set [0..<Suc (length ?s)]" by simp
  moreover have "?P (length pre)" by simp
  ultimately have "length pre \<in> set (filter ?P [0..<Suc (length ?s)])"
    by simp
  then have "filter ?P [0..<Suc (length ?s)] \<noteq> []" by (metis empty_iff empty_set)
  then have "0 < length (filter ?P [0..<Suc (length ?s)])"
    by (rule length_greater_0_conv [THEN iffD2])
  then show ?thesis unfolding occurrences_def by linarith
qed

lemma TrimSpace_last: "TrimSpace s = [] \<or> last (TrimSpace s) \<noteq> LF"
proof (cases "TrimSpace s" rule: rev_cases)
  case Nil
  then show ?thesis by simp
next
  case (snoc xs x)
  have "[LF] \<in> set spaceRunes" by (simp add: spaceRunes_def LF_def)
  moreover have "\<forall>r\<in>set spaceRunes. \<not> suffix r (TrimSpace s)"
    using TrimSpace_spec [of s] by blast
  ultimately have "\<not> suffix [LF] (TrimSpace s)" by blast
  with snoc show ?thesis by (auto simp: suffix_def)
qed

lemma last_writeCaller:
  "HasCaller entry \<Longrightarrow> writeCaller f [] entry \<noteq> [] \<and> last (writeCaller f [] entry) = CHR '')''"
  by (simp add: writeCaller_def Let_def)

lemma writeCaller_None: "\<not> HasCaller entry \<Longrightarrow> writeCaller f [] entry = []"
  by (simp add: writeCaller_def)

subsection \<open>Escape bytes\<close>

lemma ESC_notin_writeField:
  assumes "(k, v) \<in> set (Data entry)" and "map_of (Data entry) k = Some v"
    and "ESC \<notin> set k" and "ESC \<notin> set (vf v)"
  shows "ESC \<notin> set (writeField vf f [] entry k)"
  using assms by (simp add: writeField_def WriteString_def Sprint_v_def ESC_def)

lemma ESC_notin_field_segment:
  assumes "\<forall>(k, v) \<in> set (Data entry). ESC \<notin> set k \<and> ESC \<notin> set (vf v)"
  shows "ESC \<notin> set (if FieldsOrder f = None then writeFields vf f [] entry
                      else writeOrderedFields vf f [] entry)"
proof -
  obtain names where n: "set names \<subseteq> fst ` set (Data entry)"
    "(if FieldsOrder f = None then writeFields vf f [] entry
      else writeOrderedFields vf f [] entry) = concat (map (writeField vf f [] entry) names)"
    using field_segment_names [of entry f vf] by blast
  have "ESC \<notin> set (writeField vf f [] entry k)" if "k \<in> set names" for k
  proof -
    from that n(1) have "k \<in> fst ` set (Data entry)" by blast
    then obtain v where v: "map_of (Data entry) k = Some v"
      by (cases "map_of (Data entry) k") (simp_all add: map_of_eq_None_iff)
    then have kv: "(k, v) \<in> set (Data entry)" by (rule map_of_SomeD)
    with assms have "ESC \<notin> set k \<and> ESC \<notin> set (vf v)" by blast
    with kv v show ?thesis by (simp add: ESC_notin_writeField)
  qed
  then have "ESC \<notin> set (concat (map (writeField vf f [] entry) names))" by simp
  then show ?thesis unfolding n(2) .
qed

lemma ESC_notin_writeCaller:
  assumes "\<forall>c. Caller entry = Some c \<longrightarrow> ESC \<notin> set (File c) \<and> ESC \<notin> set (Function c)"
  shows "ESC \<notin> set (writeCaller f [] entry)"
proof (cases "HasCaller entry")
  case False
  then show ?thesis by (simp add: writeCaller_def)
next
  case True
  then obtain c where c: "Caller entry = Some c" by (auto simp: HasCaller_def)
  with assms have "ESC \<notin> set (File c) \<and> ESC \<notin> set (Function c)" by blast
  with True c show ?thesis
    using ESC_notin_Itoa [of "Line c"] by (simp add: writeCaller_def ESC_def)
qed

subsection \<open>Records that differ in the message\<close>

lemma writeField_Message:
  "writeField vf f b (entry\<lparr>Message := m\<rparr>) = writeField vf f b entry"
  by (rule ext) (simp add: writeField_def)

lemma present_Message: "present (entry\<lparr>Message := m\<rparr>) order = present entry order"
  by (simp add: present_def)

lemma writeFields_Message:
  "writeFields vf f b (entry\<lparr>Message := m\<rparr>) = writeFields vf f b entry"
  by (simp add: writeFields_eq writeField_Message)

lemma writeOrderedFields_Message:
  "writeOrderedFields vf f b (entry\<lparr>Message := m\<rparr>) = writeOrderedFields vf f b entry"
  by (simp add: writeOrderedFields_eq writeField_Message present_Message)

lemma writeCaller_Message:
  "writeCaller f b (entry\<lparr>Message := m\<rparr>) = writeCaller f b entry"
  by (auto simp: writeCaller_def HasCaller_def)

section \<open>The claims\<close>

subsection \<open>C7: the text of one field\<close>

text \<open>
  C7. For every field rendered, \<open>writeField\<close> appends \<open>[<value>]\<close> when \<open>HideKeys\<close> is
  set and \<open>[<name>:<value>]\<close> otherwise, where \<open><value>\<close> is the default format of the
  value of the field, and then exactly one space; the field segment is the concatenation
  of these texts, so the last field too is followed by the space. The fields
  \<open>{user: alice, id: 42}\<close> with the order \<open>[id]\<close> render as \<open>[id:42] [user:alice] \<close> and,
  with \<open>HideKeys\<close>, as \<open>[42] [alice] \<close>.
\<close>

theorem writeField_text:
  "writeField vf f b entry field =
     b @ (if HideKeys f
          then ''['' @ Sprint_v vf (map_of (Data entry) field) @ '']''
          else ''['' @ field @ '':'' @ Sprint_v vf (map_of (Data entry) field) @ '']'') @ '' ''
   \<and> (map_of (Data entry) field = Some v \<longrightarrow> Sprint_v vf (map_of (Data entry) field) = vf v)
   \<and> writeEach vf f [] entry ks = concat (map (writeField vf f [] entry) ks)
   \<and> writeOrderedFields format_v exampleFormatter [] exampleEntry = ''[id:42] [user:alice] ''
   \<and> writeOrderedFields format_v (exampleFormatter\<lparr>HideKeys := True\<rparr>) [] exampleEntry =
       ''[42] [alice] ''"
proof -
  have "writeField vf f b entry field =
     b @ (if HideKeys f
          then ''['' @ Sprint_v vf (map_of (Data entry) field) @ '']''
          else ''['' @ field @ '':'' @ Sprint_v vf (map_of (Data entry) field) @ '']'') @ '' ''"
    by (simp add: writeField_def WriteString_def)
  moreover have "map_of (Data entry) field = Some v \<longrightarrow>
      Sprint_v vf (map_of (Data entry) field) = vf v"
    by (simp add: Sprint_v_def)
  moreover have "writeEach vf f [] entry ks = concat (map (writeField vf f [] entry) ks)"
    by (simp add: writeEach_concat)
  moreover have "writeOrderedFields format_v exampleFormatter [] exampleEntry =
      ''[id:42] [user:alice] ''"
    by code_simp
  moreover have "writeOrderedFields format_v (exampleFormatter\<lparr>HideKeys := True\<rparr>) []
      exampleEntry = ''[42] [alice] ''"
    by code_simp
  ultimately show ?thesis by blast
qed

theorem writeField_text_witness:
  "map_of (Data exampleEntry) ''id'' = Some (GoInt 42) \<and>
   writeField format_v exampleFormatter ''x'' exampleEntry ''id'' = ''x[id:42] '' \<and>
   writeField format_v (exampleFormatter\<lparr>HideKeys := True\<rparr>) ''x'' exampleEntry ''id'' =
     ''x[42] ''"
proof -
  have v: "map_of (Data exampleEntry) ''id'' = Some (GoInt 42)"
    by (simp add: exampleEntry_def)
  have i: "format_v (GoInt 42) = ''42''"
    by code_simp
  from writeField_text [of format_v exampleFormatter "''x''" exampleEntry "''id''" "GoInt 42" "[]"]
    writeField_text [of format_v "exampleFormatter\<lparr>HideKeys := True\<rparr>" "''x''" exampleEntry
      "''id''" "GoInt 42" "[]"]
  show ?thesis using v i by (simp add: exampleFormatter_def)
qed

subsection \<open>C9: Format returns a nil error\<close>

text \<open>
  C9. For every entry and every formatter, \<open>Format\<close> succeeds: it does not panic at the
  slice of the level name, and it returns the rendered bytes together with a nil error.
\<close>

theorem Format_succeeds: "\<exists>out. Format tf vf f entry = Inr (out, None)"
  using Format_layout [OF level_name_length] by blast

theorem Format_succeeds_witness:
  "Format format_t format_v (exampleFormatter\<lparr>NoColors := True\<rparr>) exampleEntry =
     Inr (''[10:30:00] [INFO] [id:42] [user:alice] hello'' @ [LF], None)"
proof -
  from Format_succeeds [of format_t format_v "exampleFormatter\<lparr>NoColors := True\<rparr>" exampleEntry]
  obtain out where "Format format_t format_v (exampleFormatter\<lparr>NoColors := True\<rparr>) exampleEntry =
      Inr (out, None)"
    by blast
  moreover have "Format format_t format_v (exampleFormatter\<lparr>NoColors := True\<rparr>) exampleEntry =
      Inr (''[10:30:00] [INFO] [id:42] [user:alice] hello'' @ [LF], None)"
    by code_simp
  ultimately show ?thesis by simp
qed

subsection \<open>C1: the order of the fields under a configured order\<close>

text \<open>
  C1, as the code has it. For every record (a map: its keys are distinct) and every
  order list \<open>FieldsOrder = Some order\<close>, the field segment begins with the fields whose
  names appear in \<open>order\<close> and are present in the record, in exactly the sequence of
  \<open>order\<close>, one rendering for each entry of \<open>order\<close>; names of \<open>order\<close> absent from the
  record are skipped and nothing is written for them. When no name present in the record
  is repeated in \<open>order\<close>, these are followed by all remaining fields of the record,
  sorted lexicographically, and the segment renders each field of the record exactly
  once: the names rendered are distinct and are the keys of the record.
\<close>

theorem writeOrderedFields_order:
  assumes "distinct (map fst (Data entry))"
    and "FieldsOrder f = Some order"
    and "named = filter (\<lambda>k. k \<in> fst ` set (Data entry)) order"
    and "rest = sort (filter (\<lambda>k. k \<notin> set order) (map fst (Data entry)))"
  shows "(\<exists>tail. writeOrderedFields vf f b entry =
            b @ concat (map (writeField vf f [] entry) named) @ tail) \<and>
         (distinct named \<longrightarrow>
            writeOrderedFields vf f b entry =
              b @ concat (map (writeField vf f [] entry) (named @ rest)) \<and>
            distinct (named @ rest) \<and>
            set (named @ rest) = fst ` set (Data entry) \<and>
            sorted rest)"
proof -
  have order: "rangeOrder f = order" using assms(2) by (simp add: rangeOrder_def)
  have named: "named = present entry (rangeOrder f)"
    using assms(3) order by (simp add: present_def)
  have "\<exists>tail. writeOrderedFields vf f b entry =
      b @ concat (map (writeField vf f [] entry) named) @ tail"
    unfolding named by (subst writeOrderedFields_eq) blast
  moreover have "writeOrderedFields vf f b entry =
      b @ concat (map (writeField vf f [] entry) (named @ rest))" if "distinct named"
    using writeOrderedFields_distinct [OF assms(1), of f vf b] that assms(4) named order
    by simp
  moreover have "distinct (named @ rest)" if "distinct named"
    using that assms(1) assms(3,4) by (auto simp: distinct_map_filter)
  moreover have "set (named @ rest) = fst ` set (Data entry)"
    using assms(3,4) by auto
  moreover have "sorted rest" using assms(4) by simp
  ultimately show ?thesis by blast
qed

theorem writeOrderedFields_order_witness:
  "writeOrderedFields format_v exampleFormatter ''x'' exampleEntry = ''x[id:42] [user:alice] ''"
proof -
  have d: "distinct (map fst (Data exampleEntry))" by (simp add: exampleEntry_def)
  have o: "FieldsOrder exampleFormatter = Some [''id'']" by (simp add: exampleFormatter_def)
  have n: "[''id''] = filter (\<lambda>k. k \<in> fst ` set (Data exampleEntry)) [''id'']"
    by (simp add: exampleEntry_def)
  have r: "[''user''] = sort (filter (\<lambda>k. k \<notin> set [''id'']) (map fst (Data exampleEntry)))"
    by (simp add: exampleEntry_def)
  have t: "concat (map (writeField format_v exampleFormatter [] exampleEntry) ([''id''] @ [''user''])) =
      ''[id:42] [user:alice] ''"
    by code_simp
  from writeOrderedFields_order [OF d o n r, of format_v "''x''"] t show ?thesis by simp
qed

text \<open>
  C1 as stated fails when \<open>order\<close> repeats a name of the record. With the fields
  \<open>{user: alice, id: 42}\<close> and the order \<open>[id, id]\<close> the loop over the order list renders
  \<open>id\<close> twice and decrements \<open>length\<close> twice, to 0, so that the fields not found are
  never collected: \<open>id\<close> is in the segment twice and \<open>user\<close> not at all.
\<close>

theorem writeOrderedFields_repeated_name:
  "writeOrderedFields format_v (exampleFormatter\<lparr>FieldsOrder := Some [''id'', ''id'']\<rparr>) []
     exampleEntry = ''[id:42] [id:42] '' \<and>
   occurrences ''[id:42] ''
     (writeOrderedFields format_v (exampleFormatter\<lparr>FieldsOrder := Some [''id'', ''id'']\<rparr>) []
        exampleEntry) = 2 \<and>
   occurrences ''[user:alice] ''
     (writeOrderedFields format_v (exampleFormatter\<lparr>FieldsOrder := Some [''id'', ''id'']\<rparr>) []
        exampleEntry) = 0"
  by code_simp

subsection \<open>C8: the alphabetical order when no order is configured\<close>

text \<open>
  C8. When \<open>FieldsOrder\<close> is nil, the field segment is the rendering of the field names
  of the record sorted lexicographically, in that order. Consequently two records that
  hold the same fields with the same values, visited by \<open>range\<close> in different orders
  (\<open>d\<close> and \<open>d'\<close> are two enumerations of one map), give the same field segment, and
  \<open>Format\<close> returns the same bytes for them.
\<close>

theorem writeFields_sorted:
  assumes "FieldsOrder f = None"
    and "distinct (map fst d)" and "distinct (map fst d')" and "set d = set d'"
  shows "writeFields vf f b (entry\<lparr>Data := d\<rparr>) =
           b @ concat (map (writeField vf f [] (entry\<lparr>Data := d\<rparr>)) (sort (map fst d))) \<and>
         sorted (sort (map fst d)) \<and> distinct (sort (map fst d)) \<and>
         set (sort (map fst d)) = fst ` set d \<and>
         writeFields vf f b (entry\<lparr>Data := d'\<rparr>) = writeFields vf f b (entry\<lparr>Data := d\<rparr>) \<and>
         Format tf vf f (entry\<lparr>Data := d'\<rparr>) = Format tf vf f (entry\<lparr>Data := d\<rparr>)"
proof -
  have m: "map_of (Data (entry\<lparr>Data := d'\<rparr>)) = map_of (Data (entry\<lparr>Data := d\<rparr>))"
    using assms(2-4) by (simp add: map_of_inject_set)
  have w: "writeField vf f c (entry\<lparr>Data := d'\<rparr>) = writeField vf f c (entry\<lparr>Data := d\<rparr>)" for c
    using m by (rule writeField_Data_cong)
  have s: "sort (map fst d') = sort (map fst d)"
    using assms(3,2) assms(4) [symmetric] by (rule sort_keys_eq)
  have eq: "writeFields vf f c (entry\<lparr>Data := d'\<rparr>) = writeFields vf f c (entry\<lparr>Data := d\<rparr>)" for c
    by (simp add: writeFields_eq s w)
  have "Format tf vf f (entry\<lparr>Data := d'\<rparr>) = Format tf vf f (entry\<lparr>Data := d\<rparr>)"
    by (simp add: Format_layout level_name_length assms(1) eq writeCaller_Data)
  moreover have "writeFields vf f b (entry\<lparr>Data := d\<rparr>) =
      b @ concat (map (writeField vf f [] (entry\<lparr>Data := d\<rparr>)) (sort (map fst d)))"
    by (simp add: writeFields_eq)
  moreover have "distinct (sort (map fst d))" using assms(2) by simp
  moreover have "set (sort (map fst d)) = fst ` set d" by simp
  ultimately show ?thesis using eq by simp
qed

theorem writeFields_sorted_witness:
  "writeFields format_v (exampleFormatter\<lparr>FieldsOrder := None\<rparr>) []
     (exampleEntry\<lparr>Data := [(''user'', GoString ''alice''), (''id'', GoInt 42)]\<rparr>) =
     ''[id:42] [user:alice] '' \<and>
   writeFields format_v (exampleFormatter\<lparr>FieldsOrder := None\<rparr>) []
     (exampleEntry\<lparr>Data := [(''id'', GoInt 42), (''user'', GoString ''alice'')]\<rparr>) =
     ''[id:42] [user:alice] ''"
proof -
  let ?d = "[(''user'', GoString ''alice''), (''id'', GoInt 42)]"
  let ?d' = "[(''id'', GoInt 42), (''user'', GoString ''alice'')]"
  let ?f = "exampleFormatter\<lparr>FieldsOrder := None\<rparr>"
  have 1: "FieldsOrder ?f = None" by simp
  have 2: "distinct (map fst ?d)" by simp
  have 3: "distinct (map fst ?d')" by simp
  have 4: "set ?d = set ?d'" by auto
  have 5: "writeFields format_v ?f [] (exampleEntry\<lparr>Data := ?d\<rparr>) = ''[id:42] [user:alice] ''"
    by code_simp
  from writeFields_sorted [OF 1 2 3 4, of format_v "[]" exampleEntry format_t] 5
  show ?thesis by simp
qed

subsection \<open>C10: an empty order list\<close>

text \<open>
  C10. For every record, a formatter whose \<open>FieldsOrder\<close> is an empty list that is not
  nil writes the same field segment as one whose \<open>FieldsOrder\<close> is nil: in both cases all
  fields of the record are rendered in lexicographic order, and \<open>Format\<close> returns the
  same bytes.
\<close>

theorem empty_order_is_alphabetical:
  "writeOrderedFields vf (f\<lparr>FieldsOrder := Some []\<rparr>) b entry =
     writeFields vf (f\<lparr>FieldsOrder := None\<rparr>) b entry \<and>
   writeFields vf (f\<lparr>FieldsOrder := None\<rparr>) b entry =
     b @ concat (map (writeField vf f [] entry) (sort (map fst (Data entry)))) \<and>
   Format tf vf (f\<lparr>FieldsOrder := Some []\<rparr>) entry =
     Format tf vf (f\<lparr>FieldsOrder := None\<rparr>) entry"
proof -
  have w: "writeField vf (f\<lparr>FieldsOrder := x\<rparr>) c entry = writeField vf f c entry" for x c
    by (rule ext) (simp add: writeField_def)
  have p: "present entry (rangeOrder (f\<lparr>FieldsOrder := Some []\<rparr>)) = []"
    by (simp add: present_def rangeOrder_def)
  have 1: "writeOrderedFields vf (f\<lparr>FieldsOrder := Some []\<rparr>) c entry =
      writeFields vf (f\<lparr>FieldsOrder := None\<rparr>) c entry" for c
    by (cases "Data entry") (simp_all add: writeOrderedFields_eq writeFields_eq p w)
  have 2: "writeFields vf (f\<lparr>FieldsOrder := None\<rparr>) b entry =
      b @ concat (map (writeField vf f [] entry) (sort (map fst (Data entry))))"
    by (simp add: writeFields_eq w)
  have 3: "Format tf vf (f\<lparr>FieldsOrder := Some []\<rparr>) entry =
      Format tf vf (f\<lparr>FieldsOrder := None\<rparr>) entry"
    by (auto simp: Format_layout level_name_length 1 writeCaller_def HasCaller_def)
  from 1 2 3 show ?thesis by simp
qed

theorem empty_order_is_alphabetical_witness:
  "writeOrderedFields format_v (exampleFormatter\<lparr>FieldsOrder := Some []\<rparr>) [] exampleEntry =
     ''[id:42] [user:alice] '' \<and>
   writeFields format_v (exampleFormatter\<lparr>FieldsOrder := None\<rparr>) [] exampleEntry =
     ''[id:42] [user:alice] ''"
proof -
  have "writeFields format_v (exampleFormatter\<lparr>FieldsOrder := None\<rparr>) [] exampleEntry =
     ''[id:42] [user:alice] ''"
    by code_simp
  with empty_order_is_alphabetical [of format_v exampleFormatter "[]" exampleEntry format_t]
  show ?thesis by simp
qed

subsection \<open>C3: the level tag\<close>

text \<open>
  C3. For every level whose name, in upper case, has at least 4 bytes, the slice
  \<open>level[:4]\<close> is in bounds and \<open>Format\<close> writes, after the time stamp and the colour,
  a space and the first 4 bytes of the upper-case name in brackets: INFO, WARN, ERRO,
  FATA, PANI, DEBU and TRAC for the seven levels. The slice is taken without a check of
  the length: on a string \<open>s\<close> shorter than 4 bytes the slice expression panics.
\<close>

theorem level_tag:
  assumes "4 \<le> length (ToUpper (Level_String (Level entry)))"
  shows "sliceTo (ToUpper (Level_String (Level entry))) 4 =
           Inr (take 4 (ToUpper (Level_String (Level entry)))) \<and>
         length (take 4 (ToUpper (Level_String (Level entry)))) = 4 \<and>
         Format tf vf f entry =
           Inr (''['' @ tf (Time entry) (if TimestampFormat f = [] then TimeOnly else TimestampFormat f) @ '']'' @
                (if NoColors f then [] else [ESC] @ ''['' @ Itoa (getColorByLevel (Level entry)) @ ''m'') @
                '' ['' @ take 4 (ToUpper (Level_String (Level entry))) @ '']'' @ '' '' @
                (if FieldsOrder f = None then writeFields vf f [] entry
                 else writeOrderedFields vf f [] entry) @
                (if NoColors f then [] else [ESC] @ ''['' @ Itoa colorNone @ ''m'') @
                (if DisableTrimMessages f then Message entry else TrimSpace (Message entry)) @
                writeCaller f [] entry @ [LF], None) \<and>
         take 4 (ToUpper (Level_String InfoLevel)) = ''INFO'' \<and>
         take 4 (ToUpper (Level_String WarnLevel)) = ''WARN'' \<and>
         take 4 (ToUpper (Level_String ErrorLevel)) = ''ERRO'' \<and>
         take 4 (ToUpper (Level_String FatalLevel)) = ''FATA'' \<and>
         take 4 (ToUpper (Level_String PanicLevel)) = ''PANI'' \<and>
         take 4 (ToUpper (Level_String DebugLevel)) = ''DEBU'' \<and>
         take 4 (ToUpper (Level_String TraceLevel)) = ''TRAC'' \<and>
         (length s < 4 \<longrightarrow> sliceTo s 4 = Inl (SliceBoundsOutOfRange 4 (length s)))"
proof -
  have "sliceTo (ToUpper (Level_String (Level entry))) 4 =
      Inr (take 4 (ToUpper (Level_String (Level entry))))"
    using assms by (simp add: sliceTo_def)
  moreover have "length (take 4 (ToUpper (Level_String (Level entry)))) = 4"
    using assms by simp
  moreover have "length s < 4 \<longrightarrow> sliceTo s 4 = Inl (SliceBoundsOutOfRange 4 (length s))"
    by (simp add: sliceTo_def)
  ultimately show ?thesis
    using Format_layout [OF assms, where tf = tf and vf = vf and f = f] level_tags by simp
qed

theorem level_tag_witness:
  "4 \<le> length (ToUpper (Level_String (Level (exampleEntry\<lparr>Level := WarnLevel\<rparr>)))) \<and>
   Format format_t format_v (exampleFormatter\<lparr>NoColors := True\<rparr>)
     (exampleEntry\<lparr>Level := WarnLevel\<rparr>) =
     Inr (''[10:30:00] [WARN] [id:42] [user:alice] hello'' @ [LF], None) \<and>
   sliceTo ''abc'' 4 = Inl (SliceBoundsOutOfRange 4 3)"
proof -
  have h: "4 \<le> length (ToUpper (Level_String (Level (exampleEntry\<lparr>Level := WarnLevel\<rparr>))))"
    by (simp add: ToUpper_def Level_String_def WarnLevel_def TraceLevel_def DebugLevel_def
        InfoLevel_def)
  have v: "Format format_t format_v (exampleFormatter\<lparr>NoColors := True\<rparr>)
     (exampleEntry\<lparr>Level := WarnLevel\<rparr>) =
     Inr (''[10:30:00] [WARN] [id:42] [user:alice] hello'' @ [LF], None)"
    by code_simp
  from level_tag [OF h, where s = "''abc''" and tf = format_t and vf = format_v
      and f = "exampleFormatter\<lparr>NoColors := True\<rparr>"]
  have "sliceTo ''abc'' 4 = Inl (SliceBoundsOutOfRange 4 3)" by simp
  with h v show ?thesis by simp
qed

subsection \<open>C6: the colour of a level\<close>

text \<open>
  C6. \<open>getColorByLevel\<close> is a function of the level alone: Trace and Debug give 37
  (gray), Warn 33 (yellow), Error, Fatal and Panic 31 (red), Info and every level that is
  none of the seven 36 (cyan). When colours are enabled, \<open>Format\<close> writes the escape
  sequence \<open>ESC[<n>m\<close> of the colour after the time stamp and the reset sequence
  \<open>ESC[0m\<close> after the fields, before the message.
\<close>

theorem level_colors:
  "getColorByLevel TraceLevel = 37 \<and> getColorByLevel DebugLevel = 37 \<and>
   getColorByLevel WarnLevel = 33 \<and>
   getColorByLevel ErrorLevel = 31 \<and> getColorByLevel FatalLevel = 31 \<and>
   getColorByLevel PanicLevel = 31 \<and>
   getColorByLevel InfoLevel = 36 \<and>
   (level \<notin> {TraceLevel, DebugLevel, WarnLevel, ErrorLevel, FatalLevel, PanicLevel} \<longrightarrow>
      getColorByLevel level = 36) \<and>
   Itoa 37 = ''37'' \<and> Itoa 33 = ''33'' \<and> Itoa 31 = ''31'' \<and> Itoa 36 = ''36'' \<and>
   Itoa colorNone = ''0'' \<and>
   (\<not> NoColors f \<longrightarrow>
      Format tf vf f entry =
        Inr (''['' @ tf (Time entry) (if TimestampFormat f = [] then TimeOnly else TimestampFormat f) @ '']'' @
             [ESC] @ ''['' @ Itoa (getColorByLevel (Level entry)) @ ''m'' @
             '' ['' @ take 4 (ToUpper (Level_String (Level entry))) @ '']'' @ '' '' @
             (if FieldsOrder f = None then writeFields vf f [] entry
              else writeOrderedFields vf f [] entry) @
             [ESC] @ ''['' @ ''0'' @ ''m'' @
             (if DisableTrimMessages f then Message entry else TrimSpace (Message entry)) @
             writeCaller f [] entry @ [LF], None))"
proof -
  have i: "Itoa 37 = ''37''" "Itoa 33 = ''33''" "Itoa 31 = ''31''" "Itoa 36 = ''36''"
    "Itoa colorNone = ''0''"
    by code_simp+
  have "\<not> NoColors f \<longrightarrow>
      Format tf vf f entry =
        Inr (''['' @ tf (Time entry) (if TimestampFormat f = [] then TimeOnly else TimestampFormat f) @ '']'' @
             [ESC] @ ''['' @ Itoa (getColorByLevel (Level entry)) @ ''m'' @
             '' ['' @ take 4 (ToUpper (Level_String (Level entry))) @ '']'' @ '' '' @
             (if FieldsOrder f = None then writeFields vf f [] entry
              else writeOrderedFields vf f [] entry) @
             [ESC] @ ''['' @ ''0'' @ ''m'' @
             (if DisableTrimMessages f then Message entry else TrimSpace (Message entry)) @
             writeCaller f [] entry @ [LF], None)"
    using Format_layout [OF level_name_length, where entry = entry and tf = tf and vf = vf and f = f]
      i(5) by simp
  then show ?thesis
    using i getColorByLevel_values(1-7) getColorByLevel_values(8) [of level] by simp
qed

theorem level_colors_witness:
  "getColorByLevel 77 = 36 \<and>
   Format format_t format_v exampleFormatter (exampleEntry\<lparr>Level := ErrorLevel\<rparr>) =
     Inr (''[10:30:00]'' @ [ESC] @ ''[31m [ERRO] [id:42] [user:alice] '' @ [ESC] @ ''[0mhello'' @ [LF],
          None)"
proof -
  have n: "(77 :: Level) \<notin> {TraceLevel, DebugLevel, WarnLevel, ErrorLevel, FatalLevel, PanicLevel}"
    by (simp add: TraceLevel_def DebugLevel_def WarnLevel_def ErrorLevel_def FatalLevel_def
        PanicLevel_def)
  have c: "\<not> NoColors exampleFormatter" by (simp add: exampleFormatter_def)
  have v: "Format format_t format_v exampleFormatter (exampleEntry\<lparr>Level := ErrorLevel\<rparr>) =
     Inr (''[10:30:00]'' @ [ESC] @ ''[31m [ERRO] [id:42] [user:alice] '' @ [ESC] @ ''[0mhello'' @ [LF],
          None)"
    by code_simp
  from level_colors [where level = 77 and f = exampleFormatter and tf = format_t
      and vf = format_v and entry = "exampleEntry\<lparr>Level := ErrorLevel\<rparr>"]
    n c v show ?thesis by simp
qed

subsection \<open>C4: the message segment\<close>

text \<open>
  C4. Between the fields (and the reset sequence) and the caller, \<open>Format\<close> writes the
  message as it is when \<open>DisableTrimMessages\<close> is set, and otherwise the message without
  its leading and trailing white space: the message is a run of white-space runes, the
  trimmed text, and a run of white-space runes, and the trimmed text neither starts nor
  ends with a white-space rune. The message \<open>" hello "\<close> gives the segment \<open>hello\<close> when
  trimmed.
\<close>

theorem message_segment:
  "Format tf vf f entry =
     Inr ((''['' @ tf (Time entry) (if TimestampFormat f = [] then TimeOnly else TimestampFormat f) @ '']'' @
           (if NoColors f then [] else [ESC] @ ''['' @ Itoa (getColorByLevel (Level entry)) @ ''m'') @
           '' ['' @ take 4 (ToUpper (Level_String (Level entry))) @ '']'' @ '' '' @
           (if FieldsOrder f = None then writeFields vf f [] entry
            else writeOrderedFields vf f [] entry) @
           (if NoColors f then [] else [ESC] @ ''['' @ Itoa colorNone @ ''m'')) @
          (if DisableTrimMessages f then Message entry else TrimSpace (Message entry)) @
          writeCaller f [] entry @ [LF], None) \<and>
   (\<exists>ls rs. set ls \<subseteq> set spaceRunes \<and> set rs \<subseteq> set spaceRunes \<and>
      Message entry = concat ls @ TrimSpace (Message entry) @ concat rs \<and>
      (\<forall>r\<in>set spaceRunes.
         \<not> prefix r (TrimSpace (Message entry)) \<and> \<not> suffix r (TrimSpace (Message entry)))) \<and>
   TrimSpace '' hello '' = ''hello''"
proof -
  have "TrimSpace '' hello '' = ''hello''" by code_simp
  then show ?thesis
    using Format_layout [OF level_name_length, where entry = entry and tf = tf and vf = vf and f = f]
      TrimSpace_spec [of "Message entry"]
    by simp
qed

theorem message_segment_witness:
  "Message exampleEntry = '' hello '' \<and>
   Format format_t format_v (exampleFormatter\<lparr>NoColors := True\<rparr>) exampleEntry =
     Inr (''[10:30:00] [INFO] [id:42] [user:alice] '' @ ''hello'' @ [LF], None) \<and>
   Format format_t format_v (exampleFormatter\<lparr>NoColors := True, DisableTrimMessages := True\<rparr>)
     exampleEntry =
     Inr (''[10:30:00] [INFO] [id:42] [user:alice] '' @ '' hello '' @ [LF], None)"
proof -
  have m: "Message exampleEntry = '' hello ''" by (simp add: exampleEntry_def)
  have v: "Format format_t format_v (exampleFormatter\<lparr>NoColors := True\<rparr>) exampleEntry =
      Inr (''[10:30:00] [INFO] [id:42] [user:alice] '' @ ''hello'' @ [LF], None)"
    by code_simp
  have v': "Format format_t format_v
      (exampleFormatter\<lparr>NoColors := True, DisableTrimMessages := True\<rparr>) exampleEntry =
      Inr (''[10:30:00] [INFO] [id:42] [user:alice] '' @ '' hello '' @ [LF], None)"
    by code_simp
  from message_segment [where tf = format_t and vf = format_v
      and f = "exampleFormatter\<lparr>NoColors := True, DisableTrimMessages := True\<rparr>"
      and entry = exampleEntry] m v v'
  show ?thesis by simp
qed

subsection \<open>C2: the end of the line and the message\<close>

text \<open>
  C2, as the code has it. The line that \<open>Format\<close> returns is the prefix \<open>pre\<close> (time
  stamp, colour, level tag, fields and reset sequence), the message text (the trimmed
  message, or the message as it is when \<open>DisableTrimMessages\<close> is set), the caller, if
  any, and one line feed, which is the last byte. The prefix and the caller do not depend
  on the message: for any other message \<open>m'\<close> the line is the same but for this one
  segment, so \<open>Format\<close> writes the message text exactly once. The line therefore always
  ends with a line feed and contains the message text at least once. It ends with
  exactly one line feed unless the message is written untrimmed, there is no caller and
  the message itself ends with a line feed.
\<close>

theorem Format_line_end:
  assumes "msg = (if DisableTrimMessages f then Message entry else TrimSpace (Message entry))"
    and "pre =
      ''['' @ tf (Time entry) (if TimestampFormat f = [] then TimeOnly else TimestampFormat f) @ '']'' @
      (if NoColors f then [] else [ESC] @ ''['' @ Itoa (getColorByLevel (Level entry)) @ ''m'') @
      '' ['' @ take 4 (ToUpper (Level_String (Level entry))) @ '']'' @ '' '' @
      (if FieldsOrder f = None then writeFields vf f [] entry
       else writeOrderedFields vf f [] entry) @
      (if NoColors f then [] else [ESC] @ ''['' @ Itoa colorNone @ ''m'')"
    and "out = pre @ msg @ writeCaller f [] entry @ [LF]"
  shows "Format tf vf f entry = Inr (out, None) \<and>
         last out = LF \<and>
         1 \<le> occurrences msg out \<and>
         (trailingCount LF out = 1 \<longleftrightarrow>
            \<not> (DisableTrimMessages f \<and> \<not> HasCaller entry \<and>
               Message entry \<noteq> [] \<and> last (Message entry) = LF)) \<and>
         Format tf vf f (entry\<lparr>Message := m'\<rparr>) =
           Inr (pre @ (if DisableTrimMessages f then m' else TrimSpace m') @
                writeCaller f [] entry @ [LF], None)"
proof -
  let ?fields = "if FieldsOrder f = None then writeFields vf f [] entry
      else writeOrderedFields vf f [] entry"
  let ?head = "''['' @ tf (Time entry) (if TimestampFormat f = [] then TimeOnly else TimestampFormat f) @ '']'' @
      (if NoColors f then [] else [ESC] @ ''['' @ Itoa (getColorByLevel (Level entry)) @ ''m'') @
      '' ['' @ take 4 (ToUpper (Level_String (Level entry))) @ '']''"
  define body where "body = pre @ msg @ writeCaller f [] entry"
  have out: "out = body @ [LF]" by (simp add: assms(3) body_def)
  have fmt: "Format tf vf f entry = Inr (out, None)"
    using Format_layout [OF level_name_length, where entry = entry and tf = tf and vf = vf and f = f]
    by (simp add: assms)
  have fmt': "Format tf vf f (entry\<lparr>Message := m'\<rparr>) =
      Inr (pre @ (if DisableTrimMessages f then m' else TrimSpace m') @
           writeCaller f [] entry @ [LF], None)"
    using Format_layout [OF level_name_length, where entry = "entry\<lparr>Message := m'\<rparr>"
        and tf = tf and vf = vf and f = f]
    by (simp add: assms(2) writeFields_Message writeOrderedFields_Message writeCaller_Message)
  have pre: "pre \<noteq> [] \<and> last pre \<noteq> LF"
  proof (cases "NoColors f")
    case False
    then show ?thesis by (simp add: assms(2) LF_def)
  next
    case True
    from last_field_segment [of f vf entry]
    have "last ('' '' @ ?fields) = CHR '' ''" by auto
    then have "last (?head @ '' '' @ ?fields) = CHR '' ''" by simp
    with True show ?thesis by (simp add: assms(2) LF_def)
  qed
  have body: "body \<noteq> []" using pre by (simp add: body_def)
  have last_body: "last body = LF \<longleftrightarrow>
      DisableTrimMessages f \<and> \<not> HasCaller entry \<and> Message entry \<noteq> [] \<and> last (Message entry) = LF"
  proof (cases "HasCaller entry")
    case True
    from last_writeCaller [OF True, of f]
    have "last body = CHR '')''" by (simp add: body_def)
    with True show ?thesis by (simp add: LF_def)
  next
    case False
    then have c: "writeCaller f [] entry = []" by (rule writeCaller_None)
    show ?thesis
    proof (cases "msg = []")
      case True
      then have "last body = last pre" by (simp add: body_def c)
      moreover from True have "\<not> (DisableTrimMessages f \<and> Message entry \<noteq> [])"
        using assms(1) by auto
      ultimately show ?thesis using pre by auto
    next
      case m: False
      then have l: "last body = last msg" by (simp add: body_def c)
      show ?thesis
      proof (cases "DisableTrimMessages f")
        case True
        with assms(1) m l False show ?thesis by simp
      next
        case False
        with assms(1) m have "last msg \<noteq> LF" using TrimSpace_last [of "Message entry"] by simp
        with l False show ?thesis by simp
      qed
    qed
  qed
  have "trailingCount LF out = Suc (trailingCount LF body)"
    unfolding out by (rule trailingCount_snoc)
  moreover have "trailingCount LF body = 0 \<longleftrightarrow> last body \<noteq> LF"
    using body by (simp add: trailingCount_0_iff)
  ultimately have t: "trailingCount LF out = 1 \<longleftrightarrow>
      \<not> (DisableTrimMessages f \<and> \<not> HasCaller entry \<and> Message entry \<noteq> [] \<and> last (Message entry) = LF)"
    using last_body by simp
  have o: "1 \<le> occurrences msg out"
    unfolding assms(3) by (rule occurrences_infix)
  have l: "last out = LF" by (simp add: out)
  from fmt l o t fmt' show ?thesis by blast
qed

theorem Format_line_end_witness:
  "Format format_t format_v (exampleFormatter\<lparr>NoColors := True\<rparr>) exampleEntry =
     Inr (''[10:30:00] [INFO] [id:42] [user:alice] hello'' @ [LF], None) \<and>
   occurrences ''hello'' (''[10:30:00] [INFO] [id:42] [user:alice] hello'' @ [LF]) = 1 \<and>
   trailingCount LF (''[10:30:00] [INFO] [id:42] [user:alice] hello'' @ [LF]) = 1 \<and>
   Format format_t format_v (exampleFormatter\<lparr>NoColors := True\<rparr>)
     (exampleEntry\<lparr>Message := ''bye''\<rparr>) =
     Inr (''[10:30:00] [INFO] [id:42] [user:alice] bye'' @ [LF], None)"
proof -
  let ?f = "exampleFormatter\<lparr>NoColors := True\<rparr>"
  let ?pre = "''[10:30:00] [INFO] [id:42] [user:alice] ''"
  let ?line = "?pre @ ''hello'' @ writeCaller ?f [] exampleEntry @ [LF]"
  have m: "''hello'' = (if DisableTrimMessages ?f then Message exampleEntry
      else TrimSpace (Message exampleEntry))"
    by code_simp
  have p: "?pre =
      ''['' @ format_t (Time exampleEntry)
        (if TimestampFormat ?f = [] then TimeOnly else TimestampFormat ?f) @ '']'' @
      (if NoColors ?f then [] else [ESC] @ ''['' @ Itoa (getColorByLevel (Level exampleEntry)) @ ''m'') @
      '' ['' @ take 4 (ToUpper (Level_String (Level exampleEntry))) @ '']'' @ '' '' @
      (if FieldsOrder ?f = None then writeFields format_v ?f [] exampleEntry
       else writeOrderedFields format_v ?f [] exampleEntry) @
      (if NoColors ?f then [] else [ESC] @ ''['' @ Itoa colorNone @ ''m'')"
    by code_simp
  have c: "writeCaller ?f [] exampleEntry = []"
    by (simp add: writeCaller_def HasCaller_def exampleEntry_def)
  have o: "occurrences ''hello'' (''[10:30:00] [INFO] [id:42] [user:alice] hello'' @ [LF]) = 1"
    by code_simp
  have d: "\<not> DisableTrimMessages ?f" by (simp add: exampleFormatter_def)
  have b: "TrimSpace ''bye'' = ''bye''" by code_simp
  from Format_line_end [where f = ?f and entry = exampleEntry and tf = format_t
      and vf = format_v and msg = "''hello''" and pre = ?pre and out = ?line
      and m' = "''bye''", OF m p refl] c o d b
  show ?thesis by simp
qed

text \<open>
  C2 as stated fails: \<open>Format\<close> does not look into the message. With
  \<open>DisableTrimMessages\<close> the message \<open>"\n"\<close> gives a line that ends with two line feeds
  and holds the message text twice; with trimming, the message \<open>INFO\<close> at level Info
  occurs twice in the line, once as the level tag.
\<close>

theorem Format_line_end_counterexample:
  "Format format_t format_v (exampleFormatter\<lparr>NoColors := True, DisableTrimMessages := True\<rparr>)
     (exampleEntry\<lparr>Message := [LF]\<rparr>) =
     Inr (''[10:30:00] [INFO] [id:42] [user:alice] '' @ [LF, LF], None) \<and>
   trailingCount LF (''[10:30:00] [INFO] [id:42] [user:alice] '' @ [LF, LF]) = 2 \<and>
   occurrences [LF] (''[10:30:00] [INFO] [id:42] [user:alice] '' @ [LF, LF]) = 2 \<and>
   Format format_t format_v (exampleFormatter\<lparr>NoColors := True\<rparr>)
     (exampleEntry\<lparr>Message := ''INFO''\<rparr>) =
     Inr (''[10:30:00] [INFO] [id:42] [user:alice] INFO'' @ [LF], None) \<and>
   TrimSpace ''INFO'' = ''INFO'' \<and>
   occurrences ''INFO'' (''[10:30:00] [INFO] [id:42] [user:alice] INFO'' @ [LF]) = 2"
  by code_simp

subsection \<open>C5: no escape bytes without colours\<close>

text \<open>
  C5, as the code has it. When \<open>NoColors\<close> is set, \<open>Format\<close> writes no escape sequence
  of its own: the line has no ESC byte provided that the formatted time, the names and
  the formatted values of the fields, the message and the file and function of the
  caller have none.
\<close>

theorem no_escape_without_colors:
  assumes "NoColors f"
    and "ESC \<notin> set (tf (Time entry) (if TimestampFormat f = [] then TimeOnly else TimestampFormat f))"
    and "\<forall>(k, v) \<in> set (Data entry). ESC \<notin> set k \<and> ESC \<notin> set (vf v)"
    and "ESC \<notin> set (Message entry)"
    and "\<forall>c. Caller entry = Some c \<longrightarrow> ESC \<notin> set (File c) \<and> ESC \<notin> set (Function c)"
  shows "\<exists>out. Format tf vf f entry = Inr (out, None) \<and> ESC \<notin> set out"
proof -
  let ?fields = "if FieldsOrder f = None then writeFields vf f [] entry
      else writeOrderedFields vf f [] entry"
  let ?msg = "if DisableTrimMessages f then Message entry else TrimSpace (Message entry)"
  let ?out = "''['' @ tf (Time entry) (if TimestampFormat f = [] then TimeOnly else TimestampFormat f) @ '']'' @
      '' ['' @ take 4 (ToUpper (Level_String (Level entry))) @ '']'' @ '' '' @
      ?fields @ ?msg @ writeCaller f [] entry @ [LF]"
  have fmt: "Format tf vf f entry = Inr (?out, None)"
    using Format_layout [OF level_name_length, where entry = entry and tf = tf and vf = vf and f = f]
      assms(1) by simp
  have 1: "ESC \<notin> set (take 4 (ToUpper (Level_String (Level entry))))"
    using ESC_notin_level [of "Level entry"] by (blast dest: in_set_takeD)
  have 2: "ESC \<notin> set ?fields" using assms(3) by (rule ESC_notin_field_segment)
  have 3: "ESC \<notin> set ?msg" using assms(4) set_TrimSpace [of "Message entry"] by auto
  have 4: "ESC \<notin> set (writeCaller f [] entry)" using assms(5) by (rule ESC_notin_writeCaller)
  have "ESC \<notin> set ?out"
    using assms(2) 1 2 3 4 by (simp add: ESC_def LF_def)
  with fmt show ?thesis by blast
qed

theorem no_escape_without_colors_witness:
  "NoColors (exampleFormatter\<lparr>NoColors := True\<rparr>) \<and>
   Format format_t format_v (exampleFormatter\<lparr>NoColors := True\<rparr>) exampleEntry =
     Inr (''[10:30:00] [INFO] [id:42] [user:alice] hello'' @ [LF], None) \<and>
   ESC \<notin> set (''[10:30:00] [INFO] [id:42] [user:alice] hello'' @ [LF])"
proof -
  let ?f = "exampleFormatter\<lparr>NoColors := True\<rparr>"
  have 1: "NoColors ?f" by simp
  have 2: "ESC \<notin> set (format_t (Time exampleEntry)
      (if TimestampFormat ?f = [] then TimeOnly else TimestampFormat ?f))"
    by (simp add: format_t_def exampleEntry_def ESC_def)
  have i: "Itoa 42 = ''42''" by code_simp
  have 3: "\<forall>(k, v) \<in> set (Data exampleEntry). ESC \<notin> set k \<and> ESC \<notin> set (format_v v)"
    by (simp add: exampleEntry_def ESC_def i)
  have 4: "ESC \<notin> set (Message exampleEntry)" by (simp add: exampleEntry_def ESC_def)
  have 5: "\<forall>c. Caller exampleEntry = Some c \<longrightarrow> ESC \<notin> set (File c) \<and> ESC \<notin> set (Function c)"
    by (simp add: exampleEntry_def)
  have v: "Format format_t format_v ?f exampleEntry =
      Inr (''[10:30:00] [INFO] [id:42] [user:alice] hello'' @ [LF], None)"
    by code_simp
  from no_escape_without_colors [where f = ?f and tf = format_t and vf = format_v
      and entry = exampleEntry, OF 1 2 3 4 5] v 1
  show ?thesis by auto
qed

text \<open>
  C5 as stated fails: the texts of the record are copied to the line as they are, so an
  ESC byte in the message is in the line also when \<open>NoColors\<close> is set.
\<close>

theorem escape_in_message:
  "NoColors (exampleFormatter\<lparr>NoColors := True\<rparr>) \<and>
   Format format_t format_v (exampleFormatter\<lparr>NoColors := True\<rparr>)
     (exampleEntry\<lparr>Message := [ESC] @ ''[31mred''\<rparr>) =
     Inr (''[10:30:00] [INFO] [id:42] [user:alice] '' @ [ESC] @ ''[31mred'' @ [LF], None) \<and>
   ESC \<in> set (''[10:30:00] [INFO] [id:42] [user:alice] '' @ [ESC] @ ''[31mred'' @ [LF])"
  by code_simp

end
